theory Spec2Isabelle
  imports Complex_Main "HOL-Library.Multiset"
begin

section \<open>Data model\<close>

text \<open>
  The embedding follows \<^verbatim>\<open>src/algorithms.js\<close>. Priorities, loads and the token bucket's
  quantities are rationals, and the similarity of two token lists is the exact quotient
  of two counts; the non-finite results the code can produce (\<^verbatim>\<open>NaN\<close>, \<^verbatim>\<open>Infinity\<close>) are
  constructors of \<open>jsnum\<close>. The wait-time statistics depend on how binary64 arithmetic
  rounds, so there every operation is followed by the rounding \<open>fl\<close> defined below.
  Instants are integers: milliseconds since the epoch, within the range of \<^verbatim>\<open>Date\<close>.
\<close>

datatype js_error = TypeError

datatype jsnum = NaN | NegInf | PosInf | Num rat

text \<open>\<^verbatim>\<open>a / b\<close> on finite operands.\<close>

definition js_div :: "rat \<Rightarrow> rat \<Rightarrow> jsnum" where
  "js_div a b =
     (if b = 0 then (if a = 0 then NaN else if 0 < a then PosInf else NegInf)
      else Num (a / b))"

text \<open>\<^verbatim>\<open>a - b\<close>.\<close>

fun js_sub :: "jsnum \<Rightarrow> jsnum \<Rightarrow> jsnum" where
  "js_sub NaN _ = NaN"
| "js_sub _ NaN = NaN"
| "js_sub PosInf PosInf = NaN"
| "js_sub NegInf NegInf = NaN"
| "js_sub PosInf _ = PosInf"
| "js_sub NegInf _ = NegInf"
| "js_sub (Num a) PosInf = NegInf"
| "js_sub (Num a) NegInf = PosInf"
| "js_sub (Num a) (Num b) = Num (a - b)"

text \<open>\<^verbatim>\<open>a < b\<close>: false as soon as one side is \<^verbatim>\<open>NaN\<close>.\<close>

fun js_lt :: "jsnum \<Rightarrow> jsnum \<Rightarrow> bool" where
  "js_lt NaN _ = False"
| "js_lt _ NaN = False"
| "js_lt PosInf _ = False"
| "js_lt _ NegInf = False"
| "js_lt NegInf _ = True"
| "js_lt _ PosInf = True"
| "js_lt (Num a) (Num b) = (a < b)"

definition js_gt :: "jsnum \<Rightarrow> jsnum \<Rightarrow> bool" where
  "js_gt a b = js_lt b a"


text \<open>
  \<^verbatim>\<open>Array.prototype.sort(cmp)\<close>: a stable insertion sort. An element stays before
  another when the comparator returns a value that is not positive; \<^verbatim>\<open>NaN\<close> counts
  as zero, as the language prescribes for a comparator's result.
\<close>

fun cmp_keeps :: "jsnum \<Rightarrow> bool" where
  "cmp_keeps NaN = True"
| "cmp_keeps NegInf = True"
| "cmp_keeps PosInf = False"
| "cmp_keeps (Num q) = (q \<le> 0)"

fun js_insort :: "('a \<Rightarrow> 'a \<Rightarrow> jsnum) \<Rightarrow> 'a \<Rightarrow> 'a list \<Rightarrow> 'a list" where
  "js_insort cmp x [] = [x]"
| "js_insort cmp x (y # ys) =
     (if cmp_keeps (cmp x y) then x # y # ys else y # js_insort cmp x ys)"

definition js_sort :: "('a \<Rightarrow> 'a \<Rightarrow> jsnum) \<Rightarrow> 'a list \<Rightarrow> 'a list" where
  "js_sort cmp xs = foldr (js_insort cmp) xs []"

text \<open>\<^verbatim>\<open>xs.slice(0, k)\<close>: a negative \<open>k\<close> counts from the end.\<close>

definition js_slice0 :: "int \<Rightarrow> 'a list \<Rightarrow> 'a list" where
  "js_slice0 k xs =
     (if k < 0 then take (nat (max (int (length xs) + k) 0)) xs else take (nat k) xs)"

text \<open>
  A timestamp field of a ticket: absent (\<^verbatim>\<open>undefined\<close>, \<^verbatim>\<open>null\<close> or the empty string), a
  number of milliseconds, or a date string that is not empty (or a \<^verbatim>\<open>Date\<close> object),
  given by the instant it stands for. \<open>truthy_time\<close> is
  the test that \<^verbatim>\<open>&&\<close> makes on it: a date string is truthy, a number is truthy unless
  it is 0. \<open>getTime\<close> is \<^verbatim>\<open>new Date(v).getTime()\<close>; the code calls it on truthy fields
  only.
\<close>

datatype js_time = Absent | Millis int | DateString int



record ticket =
  tid :: nat
  priority :: rat
  status :: string
  createdAt :: js_time
  completedAt :: js_time

record doctor =
  doctor_id :: nat
  specialties :: "string option"

section \<open>Binary64 arithmetic\<close>












section \<open>PriorityQueue\<close>

text \<open>
  The heap array is a list of tickets; every method takes it and returns it updated.
  \<open>swap_at\<close> is the destructuring swap of two entries. In \<open>bubbleUp\<close> an index beyond the
  array reads \<^verbatim>\<open>undefined.priority\<close>, which raises; \<open>bubbleDown\<close> tests \<open>left\<close> and
  \<open>right\<close> against the length before it reads an entry, so it never does.
\<close>

type_synonym heap = "ticket list"

definition swap_at :: "'a list \<Rightarrow> nat \<Rightarrow> nat \<Rightarrow> 'a list" where
  "swap_at xs i j = xs[i := xs ! j, j := xs ! i]"

function bubbleUp :: "heap \<Rightarrow> nat \<Rightarrow> js_error + heap" where
  "bubbleUp h index =
     (if index > 0 then
        (if index < length h then
           (let parent = (index - 1) div 2 in
            if priority (h ! parent) \<ge> priority (h ! index) then Inr h
            else bubbleUp (swap_at h parent index) parent)
         else Inl TypeError)
      else Inr h)"
  by pat_completeness auto
termination
  by (relation "measure (\<lambda>(h, index). index)") auto

declare bubbleUp.simps [simp del]

definition insert_pq :: "heap \<Rightarrow> ticket \<Rightarrow> js_error + heap" where
  "insert_pq h t = (let h' = h @ [t] in bubbleUp h' (length h' - 1))"

function bubbleDown :: "heap \<Rightarrow> nat \<Rightarrow> heap" where
  "bubbleDown h index =
     (let largest = index;
          left = 2 * index + 1;
          right = 2 * index + 2;
          largest = (if left < length h \<and> priority (h ! left) > priority (h ! largest)
                     then left else largest);
          largest = (if right < length h \<and> priority (h ! right) > priority (h ! largest)
                     then right else largest)
      in if largest = index then h
         else bubbleDown (swap_at h index largest) largest)"
  by pat_completeness auto
termination
  by (relation "measure (\<lambda>(h, index). length h - index)") (auto simp: swap_at_def Let_def split: if_splits)

declare bubbleDown.simps [simp del]

definition extractMax :: "heap \<Rightarrow> ticket option \<times> heap" where
  "extractMax h =
     (if length h = 0 then (None, h)
      else
        let maxT = h ! 0;
            h1 = h[0 := h ! (length h - 1)];
            h2 = butlast h1
        in (Some maxT, if length h2 > 0 then bubbleDown h2 0 else h2))"

text \<open>A sequence of calls on one queue, the results of \<open>extractMax\<close> dropped.\<close>

datatype pq_op = Insert ticket | ExtractMax

fun pq_run :: "heap \<Rightarrow> pq_op list \<Rightarrow> js_error + heap" where
  "pq_run h [] = Inr h"
| "pq_run h (Insert t # ops) =
     (case insert_pq h t of Inl e \<Rightarrow> Inl e | Inr h' \<Rightarrow> pq_run h' ops)"
| "pq_run h (ExtractMax # ops) = pq_run (snd (extractMax h)) ops"

text \<open>The max-heap property: no entry exceeds the entry at its parent index.\<close>

definition is_heap :: "heap \<Rightarrow> bool" where
  "is_heap h = (\<forall>c \<in> {1..<length h}. priority (h ! c) \<le> priority (h ! ((c - 1) div 2)))"

text \<open>
  The invariants of the two sifting loops: the heap order holds everywhere but at one
  index \<open>i\<close>. While sifting up, \<open>i\<close> may exceed its parent; while sifting down, the
  children of \<open>i\<close> may exceed it. In both, the children of \<open>i\<close> respect the parent
  of \<open>i\<close>.
\<close>

definition heap_except_up :: "heap \<Rightarrow> nat \<Rightarrow> bool" where
  "heap_except_up h i =
     ((\<forall>c. 1 \<le> c \<and> c < length h \<and> c \<noteq> i \<longrightarrow> priority (h ! c) \<le> priority (h ! ((c - 1) div 2))) \<and>
      (\<forall>c. 1 \<le> c \<and> c < length h \<and> (c - 1) div 2 = i \<and> 0 < i \<longrightarrow>
           priority (h ! c) \<le> priority (h ! ((i - 1) div 2))))"

definition heap_except_down :: "heap \<Rightarrow> nat \<Rightarrow> bool" where
  "heap_except_down h i =
     ((\<forall>c. 1 \<le> c \<and> c < length h \<and> (c - 1) div 2 \<noteq> i \<longrightarrow> priority (h ! c) \<le> priority (h ! ((c - 1) div 2))) \<and>
      (\<forall>c. 1 \<le> c \<and> c < length h \<and> (c - 1) div 2 = i \<and> 0 < i \<longrightarrow>
           priority (h ! c) \<le> priority (h ! ((i - 1) div 2))))"

text \<open>A ticket with a given id and priority, and \<open>n\<close> extractions in a row.\<close>

definition ticket_of :: "nat \<Rightarrow> rat \<Rightarrow> ticket" where
  "ticket_of n p = \<lparr>tid = n, priority = p, status = ''Open'', createdAt = Absent, completedAt = Absent\<rparr>"

fun extract_n :: "nat \<Rightarrow> heap \<Rightarrow> ticket option list" where
  "extract_n 0 h = []"
| "extract_n (Suc n) h = (let (m, h') = extractMax h in m # extract_n n h')"

section \<open>Assignment engine\<close>

text \<open>\<^verbatim>\<open>i % n\<close> on non-negative integers: \<^verbatim>\<open>NaN\<close> (here \<open>None\<close>) when \<open>n\<close> is zero.\<close>

definition js_rem :: "nat \<Rightarrow> nat \<Rightarrow> nat option" where
  "js_rem i n = (if n = 0 then None else Some (i mod n))"

text \<open>\<^verbatim>\<open>xs[i]\<close>: \<^verbatim>\<open>undefined\<close> (here \<open>None\<close>) out of range and at index \<^verbatim>\<open>NaN\<close>.\<close>

definition js_nth :: "'a list \<Rightarrow> nat option \<Rightarrow> 'a option" where
  "js_nth xs i = (case i of None \<Rightarrow> None | Some j \<Rightarrow> if j < length xs then Some (xs ! j) else None)"

text \<open>
  The callback of \<^verbatim>\<open>tickets.map\<close> with its counter \<open>doctorIndex\<close>; the object
  \<^verbatim>\<open>{...ticket, assignedDoctor}\<close> is the pair of the ticket and the doctor.
\<close>

fun roundRobin_from :: "nat \<Rightarrow> ticket list \<Rightarrow> doctor list \<Rightarrow> (ticket \<times> doctor option) list" where
  "roundRobin_from doctorIndex [] doctors = []"
| "roundRobin_from doctorIndex (t # ts) doctors =
     (let assignedDoctor = js_nth doctors (js_rem doctorIndex (length doctors))
      in (t, assignedDoctor) # roundRobin_from (doctorIndex + 1) ts doctors)"

definition roundRobinAssignment :: "ticket list \<Rightarrow> doctor list \<Rightarrow> (ticket \<times> doctor option) list" where
  "roundRobinAssignment tickets doctors = roundRobin_from 0 tickets doctors"

text \<open>
  \<open>currentLoads\<close> is \<open>None\<close> when the argument is \<^verbatim>\<open>undefined\<close> or \<^verbatim>\<open>null\<close>: reading a
  property of it raises. A missing or zero entry gives load 0 (\<^verbatim>\<open>|| 0\<close>).
\<close>

fun leastLoad_each ::
  "doctor list \<Rightarrow> (nat \<rightharpoonup> rat) option \<Rightarrow> jsnum \<times> doctor option \<Rightarrow> js_error + (jsnum \<times> doctor option)" where
  "leastLoad_each [] currentLoads acc = Inr acc"
| "leastLoad_each (d # ds) currentLoads (minLoad, selectedDoctor) =
     (case currentLoads of
        None \<Rightarrow> Inl TypeError
      | Some loads \<Rightarrow>
          (let load = (case loads (doctor_id d) of None \<Rightarrow> 0 | Some l \<Rightarrow> l)
           in if js_lt (Num load) minLoad
              then leastLoad_each ds currentLoads (Num load, Some d)
              else leastLoad_each ds currentLoads (minLoad, selectedDoctor)))"

definition leastLoadAssignment ::
  "ticket \<Rightarrow> doctor list \<Rightarrow> (nat \<rightharpoonup> rat) option \<Rightarrow> js_error + doctor option" where
  "leastLoadAssignment t doctors currentLoads =
     (case leastLoad_each doctors currentLoads (PosInf, None) of
        Inl e \<Rightarrow> Inl e
      | Inr (minLoad, selectedDoctor) \<Rightarrow> Inr selectedDoctor)"

subsection \<open>Specialty similarity\<close>

text \<open>Strings are ASCII text: \<^verbatim>\<open>toLowerCase\<close> maps A-Z to a-z, and the class
  \<^verbatim>\<open>[\s,]\<close> is tab, line feed, vertical tab, form feed, carriage return, space and comma.\<close>

definition lower_char :: "char \<Rightarrow> char" where
  "lower_char c =
     (let n = (of_char c :: nat) in if 65 \<le> n \<and> n \<le> 90 then char_of (n + 32) else c)"

definition toLowerCase :: "string \<Rightarrow> string" where
  "toLowerCase s = map lower_char s"

definition is_sep :: "char \<Rightarrow> bool" where
  "is_sep c = (let n = (of_char c :: nat) in (9 \<le> n \<and> n \<le> 13) \<or> n = 32 \<or> n = 44)"

text \<open>\<^verbatim>\<open>s.split(/[\s,]+/)\<close>: the pieces between maximal runs of separators, empty
  pieces at either end included.\<close>

function split_from :: "string \<Rightarrow> string \<Rightarrow> string list" where
  "split_from piece [] = [piece]"
| "split_from piece (c # cs) =
     (if is_sep c then piece # split_from [] (dropWhile is_sep cs)
      else split_from (piece @ [c]) cs)"
  by pat_completeness auto
termination
  by (relation "measure (\<lambda>(piece, cs). length cs)") (auto simp: length_dropWhile_le le_imp_less_Suc)

definition js_split :: "string \<Rightarrow> string list" where
  "js_split s = split_from [] s"

definition tokens_of :: "string \<Rightarrow> string list" where
  "tokens_of s = filter (\<lambda>w. w \<noteq> []) (js_split (toLowerCase s))"

definition specialty_tokens :: "doctor \<Rightarrow> string list" where
  "specialty_tokens d = tokens_of (case specialties d of None \<Rightarrow> [] | Some s \<Rightarrow> s)"

definition similarity_of :: "string list \<Rightarrow> string list \<Rightarrow> jsnum" where
  "similarity_of symptomTokens doctorSpecialties =
     (let commonTerms = filter (\<lambda>s. s \<in> set doctorSpecialties) symptomTokens
      in js_div (of_nat (length commonTerms))
                (of_nat (max (length symptomTokens) (length doctorSpecialties))))"

definition knn_distances :: "string \<Rightarrow> doctor list \<Rightarrow> (doctor \<times> jsnum) list" where
  "knn_distances symptoms doctors =
     (let symptomTokens = tokens_of symptoms
      in map (\<lambda>d. (d, similarity_of symptomTokens (specialty_tokens d))) doctors)"

definition knnRecommendation :: "string \<Rightarrow> doctor list \<Rightarrow> int \<Rightarrow> (doctor \<times> jsnum) list" where
  "knnRecommendation symptoms doctors k =
     (let distances = js_sort (\<lambda>a b. js_sub (snd b) (snd a)) (knn_distances symptoms doctors)
      in filter (\<lambda>d. js_gt (snd d) (Num 0)) (js_slice0 k distances))"

section \<open>Availability engine\<close>

text \<open>
  An interval \<^verbatim>\<open>{start, end}\<close>. \<open>sweep\<close> is the \<^verbatim>\<open>for\<close> loop over the sorted intervals,
  carrying \<open>currentTime\<close> and \<open>available\<close>; \<open>sort_key\<close> is a stable ascending sort, as
  \<^verbatim>\<open>sort((a, b) => a.start - b.start)\<close> is. The parameter \<open>slotDuration\<close> is unused, as in
  the source.
\<close>

record slot =
  slot_start :: int
  slot_end :: int

fun sweep :: "slot list \<Rightarrow> int \<Rightarrow> slot list \<Rightarrow> slot list \<times> int" where
  "sweep [] currentTime available = (available, currentTime)"
| "sweep (s # ss) currentTime available =
     sweep ss (max currentTime (slot_end s))
       (if currentTime < slot_start s
        then available @ [\<lparr>slot_start = currentTime, slot_end = slot_start s\<rparr>]
        else available)"

definition findAvailableSlots :: "slot list \<Rightarrow> int \<Rightarrow> int \<Rightarrow> int \<Rightarrow> slot list" where
  "findAvailableSlots bookedSlots startTime endTime slotDuration =
     (let sortedSlots =
            sort_key slot_start
              (map (\<lambda>s. \<lparr>slot_start = slot_start s, slot_end = slot_end s\<rparr>) bookedSlots);
          (available, currentTime) = sweep sortedSlots startTime []
      in if currentTime < endTime
         then available @ [\<lparr>slot_start = currentTime, slot_end = endTime\<rparr>]
         else available)"

text \<open>Two half-open intervals share no instant.\<close>

definition disjoint_slots :: "slot \<Rightarrow> slot \<Rightarrow> bool" where
  "disjoint_slots g b = (min (slot_end g) (slot_end b) \<le> max (slot_start g) (slot_start b))"

section \<open>Retry helper\<close>

text \<open>
  The operation is the function from the number of earlier invocations to what the next
  one does: \<open>Inl e\<close> when it throws \<open>e\<close>, \<open>Inr v\<close> when it returns \<open>v\<close>. The result
  holds how the promise settles, how often the operation ran, and the delays waited.
\<close>

datatype ('e, 'a) settled = Resolved 'a | ResolvedUndefined | Rejected 'e

function backoff_from ::
  "(nat \<Rightarrow> 'e + 'a) \<Rightarrow> int \<Rightarrow> nat \<Rightarrow> nat list \<Rightarrow> ('e, 'a) settled \<times> nat \<times> nat list" where
  "backoff_from operation maxRetries i delays =
     (if int i < maxRetries then
        (case operation i of
           Inr v \<Rightarrow> (Resolved v, i + 1, delays)
         | Inl error \<Rightarrow>
             if int i = maxRetries - 1 then (Rejected error, i + 1, delays)
             else backoff_from operation maxRetries (i + 1) (delays @ [2 ^ i * 1000]))
      else (ResolvedUndefined, i, delays))"
  by pat_completeness auto
termination
  by (relation "measure (\<lambda>(operation, maxRetries, i, delays). nat maxRetries - i)") auto

declare backoff_from.simps [simp del]

definition exponentialBackoff ::
  "(nat \<Rightarrow> 'e + 'a) \<Rightarrow> int \<Rightarrow> ('e, 'a) settled \<times> nat \<times> nat list" where
  "exponentialBackoff operation maxRetries = backoff_from operation maxRetries 0 []"

section \<open>LRUCache\<close>

text \<open>A \<^verbatim>\<open>Map\<close> is the list of its entries in insertion order.\<close>

definition map_has :: "('k \<times> 'v) list \<Rightarrow> 'k \<Rightarrow> bool" where
  "map_has m k = (map_of m k \<noteq> None)"

definition map_delete :: "('k \<times> 'v) list \<Rightarrow> 'k \<Rightarrow> ('k \<times> 'v) list" where
  "map_delete m k = filter (\<lambda>e. fst e \<noteq> k) m"

definition map_set :: "('k \<times> 'v) list \<Rightarrow> 'k \<Rightarrow> 'v \<Rightarrow> ('k \<times> 'v) list" where
  "map_set m k v =
     (if map_has m k then map (\<lambda>e. if fst e = k then (k, v) else e) m else m @ [(k, v)])"

record ('k, 'v) lru_cache =
  lru_capacity :: int
  cache :: "('k \<times> 'v) list"

definition lru_get :: "('k, 'v) lru_cache \<Rightarrow> 'k \<Rightarrow> 'v option \<times> ('k, 'v) lru_cache" where
  "lru_get c key =
     (case map_of (cache c) key of
        None \<Rightarrow> (None, c)
      | Some v \<Rightarrow> (Some v, c\<lparr>cache := map_set (map_delete (cache c) key) key v\<rparr>))"

definition lru_put :: "('k, 'v) lru_cache \<Rightarrow> 'k \<Rightarrow> 'v \<Rightarrow> ('k, 'v) lru_cache" where
  "lru_put c key v =
     (let m1 = (if map_has (cache c) key then map_delete (cache c) key else cache c);
          m2 = map_set m1 key v;
          m3 = (if int (length m2) > lru_capacity c
                then (case m2 of [] \<Rightarrow> m2 | e # _ \<Rightarrow> map_delete m2 (fst e))
                else m2)
      in c\<lparr>cache := m3\<rparr>)"

section \<open>NotificationBatcher\<close>

text \<open>\<open>timer\<close> says whether a timeout is armed. \<open>flush\<close> returns what its promise resolves
  to (\<open>None\<close> for \<^verbatim>\<open>undefined\<close>); \<open>add\<close> returns the result of the flush it calls, if any,
  beside the new state (the JavaScript \<open>add\<close> drops that promise).\<close>

record 'n batcher =
  batch :: "'n list"
  batchSize :: int
  flushInterval :: int
  timer :: bool

definition flush :: "'n batcher \<Rightarrow> 'n list option \<times> 'n batcher" where
  "flush b =
     (if length (batch b) = 0 then (None, b)
      else (let toSend = batch b in (Some toSend, b\<lparr>batch := [], timer := False\<rparr>)))"

definition add :: "'n batcher \<Rightarrow> 'n \<Rightarrow> 'n list option \<times> 'n batcher" where
  "add b notification =
     (let b1 = b\<lparr>batch := batch b @ [notification]\<rparr>
      in if int (length (batch b1)) \<ge> batchSize b1 then flush b1
         else if \<not> timer b1 then (None, b1\<lparr>timer := True\<rparr>)
         else (None, b1))"

fun add_all :: "'n batcher \<Rightarrow> 'n list \<Rightarrow> 'n list option list \<times> 'n batcher" where
  "add_all b [] = ([], b)"
| "add_all b (n # ns) =
     (let (r, b1) = add b n; (rs, b2) = add_all b1 ns in (r # rs, b2))"

section \<open>TokenBucket\<close>

text \<open>\<^verbatim>\<open>Date.now()\<close> is an argument: the clock reading of the call, in milliseconds.\<close>

record bucket =
  capacity :: rat
  tokens :: rat
  refillRate :: rat
  lastRefill :: int

definition new_bucket :: "rat \<Rightarrow> rat \<Rightarrow> int \<Rightarrow> bucket" where
  "new_bucket cap rate now = \<lparr>capacity = cap, tokens = cap, refillRate = rate, lastRefill = now\<rparr>"

definition refill :: "bucket \<Rightarrow> int \<Rightarrow> bucket" where
  "refill b now =
     (let elapsed = of_int (now - lastRefill b) / 1000
      in b\<lparr>tokens := min (capacity b) (tokens b + elapsed * refillRate b), lastRefill := now\<rparr>)"

definition consume :: "bucket \<Rightarrow> int \<Rightarrow> rat \<Rightarrow> bool \<times> bucket" where
  "consume b now amount =
     (let b1 = refill b now
      in if tokens b1 \<ge> amount then (True, b1\<lparr>tokens := tokens b1 - amount\<rparr>)
         else (False, b1))"

text \<open>What a run of \<open>consume\<close> calls shows: per call the token count after the refill,
  the result, and the token count after the call.\<close>

fun consume_trace :: "bucket \<Rightarrow> (int \<times> rat) list \<Rightarrow> (rat \<times> bool \<times> rat) list" where
  "consume_trace b [] = []"
| "consume_trace b ((now, amount) # calls) =
     (let (ok, b') = consume b now amount
      in (tokens (refill b now), ok, tokens b') # consume_trace b' calls)"

section \<open>Wait-time statistics\<close>











section \<open>Empty roster\<close>

lemma roundRobin_from_empty: "roundRobin_from i ts [] = map (\<lambda>t. (t, None)) ts"
  by (induction ts arbitrary: i) (simp_all add: js_rem_def js_nth_def)

lemma js_sort_Nil: "js_sort cmp [] = []"
  by (simp add: js_sort_def)

text \<open>
  Claim C1. With an empty doctor roster and any list of tickets, \<open>roundRobinAssignment\<close>
  gives every ticket the absent doctor (\<^verbatim>\<open>doctors[NaN]\<close> is \<^verbatim>\<open>undefined\<close>),
  \<open>leastLoadAssignment\<close> returns \<^verbatim>\<open>null\<close> even when the load table itself is absent,
  and \<open>knnRecommendation\<close> returns the empty list. None of the three takes the error
  branch.
\<close>

theorem empty_roster_no_assignment:
  "roundRobinAssignment tickets [] = map (\<lambda>t. (t, None)) tickets \<and>
   leastLoadAssignment t [] currentLoads = Inr None \<and>
   knnRecommendation symptoms [] k = []"
  by (simp add: roundRobinAssignment_def roundRobin_from_empty leastLoadAssignment_def
      knnRecommendation_def knn_distances_def js_sort_Nil js_slice0_def)

theorem empty_roster_no_assignment_witness:
  "roundRobinAssignment [ticket_of 1 5, ticket_of 2 1] [] = [(ticket_of 1 5, None), (ticket_of 2 1, None)] \<and>
   roundRobinAssignment [] [] = [] \<and>
   leastLoadAssignment (ticket_of 1 5) [] None = Inr None \<and>
   knnRecommendation ''fever, cough'' [] 3 = []"
  using empty_roster_no_assignment [of "[ticket_of 1 5, ticket_of 2 1]" "ticket_of 1 5" None "''fever, cough''" 3]
    empty_roster_no_assignment [of "[]" "ticket_of 1 5" None "''fever, cough''" 3]
  by simp


section \<open>Heap property of the priority queue\<close>

lemma length_swap_at [simp]: "length (swap_at xs i j) = length xs"
  by (simp add: swap_at_def)

lemma mset_swap_at: "i < length xs \<Longrightarrow> j < length xs \<Longrightarrow> mset (swap_at xs i j) = mset xs"
  by (simp add: swap_at_def mset_swap)

lemma nth_swap_at:
  "i < length xs \<Longrightarrow> j < length xs \<Longrightarrow> k < length xs \<Longrightarrow>
   swap_at xs i j ! k = (if k = j then xs ! i else if k = i then xs ! j else xs ! k)"
  by (simp add: swap_at_def nth_list_update)

lemma is_heap_iff:
  "is_heap h = (\<forall>c. 1 \<le> c \<and> c < length h \<longrightarrow> priority (h ! c) \<le> priority (h ! ((c - 1) div 2)))"
  by (auto simp: is_heap_def)

lemma up_step:
  assumes "heap_except_up h i" "0 < i" "i < length h"
    and "\<not> priority (h ! ((i - 1) div 2)) \<ge> priority (h ! i)"
  shows "heap_except_up (swap_at h ((i - 1) div 2) i) ((i - 1) div 2)"
proof -
  let ?p = "(i - 1) div 2"
  have pl: "?p < i" using assms(2) by arith
  have plen: "?p < length h" using pl assms(3) by simp
  have lt: "priority (h ! ?p) < priority (h ! i)" using assms(4) by simp
  from assms(1) have A: "\<And>c. 1 \<le> c \<Longrightarrow> c < length h \<Longrightarrow> c \<noteq> i \<Longrightarrow> priority (h ! c) \<le> priority (h ! ((c - 1) div 2))"
    and B: "\<And>c. 1 \<le> c \<Longrightarrow> c < length h \<Longrightarrow> (c - 1) div 2 = i \<Longrightarrow> priority (h ! c) \<le> priority (h ! ?p)"
    using assms(2) by (auto simp: heap_except_up_def)
  show ?thesis unfolding heap_except_up_def
  proof (intro conjI allI impI)
    fix c assume c: "1 \<le> c \<and> c < length (swap_at h ?p i) \<and> c \<noteq> ?p"
    then have c1: "1 \<le> c" and c2: "c < length h" and c3: "c \<noteq> ?p" by auto
    have pc: "(c - 1) div 2 < length h" using c2 by arith
    have pcc: "(c - 1) div 2 < c" using c1 by arith
    show "priority (swap_at h ?p i ! c) \<le> priority (swap_at h ?p i ! ((c - 1) div 2))"
    proof (cases "c = i")
      case True
      then show ?thesis using lt plen assms(3) pl by (simp add: nth_swap_at)
    next
      case ci: False
      show ?thesis
      proof (cases "(c - 1) div 2 = i")
        case True
        then show ?thesis using B[OF c1 c2 True] ci c3 plen assms(3) c2 pl
          by (simp add: nth_swap_at)
      next
        case ni: False
        show ?thesis
        proof (cases "(c - 1) div 2 = ?p")
          case True
          then show ?thesis using A[OF c1 c2 ci] lt ci c3 plen assms(3) c2 pl
            by (simp add: nth_swap_at)
        next
          case False
          then show ?thesis using A[OF c1 c2 ci] ni ci c3 plen assms(3) c2 pc
            by (simp add: nth_swap_at)
        qed
      qed
    qed
  next
    fix c assume c: "1 \<le> c \<and> c < length (swap_at h ?p i) \<and> (c - 1) div 2 = ?p \<and> 0 < ?p"
    then have c1: "1 \<le> c" and c2: "c < length h" and c3: "(c - 1) div 2 = ?p" and p0: "0 < ?p" by auto
    have ppl: "(?p - 1) div 2 < ?p" using p0 by arith
    have pplen: "(?p - 1) div 2 < length h" using ppl plen by simp
    have cp: "c \<noteq> ?p" using c3 c1 by arith
    have pp: "priority (h ! ?p) \<le> priority (h ! ((?p - 1) div 2))"
      using A[of ?p] p0 plen pl by simp
    show "priority (swap_at h ?p i ! c) \<le> priority (swap_at h ?p i ! ((?p - 1) div 2))"
    proof (cases "c = i")
      case True
      then show ?thesis using pp plen assms(3) pplen ppl pl
        by (simp add: nth_swap_at)
    next
      case False
      then show ?thesis using A[OF c1 c2 False] c3 pp cp plen assms(3) pplen ppl pl c2
        by (simp add: nth_swap_at)
    qed
  qed
qed

lemma up_done:
  assumes "heap_except_up h i" "0 < i" "i < length h"
    and "priority (h ! ((i - 1) div 2)) \<ge> priority (h ! i)"
  shows "is_heap h"
  unfolding is_heap_iff using assms by (auto simp: heap_except_up_def)

lemma up_zero: "heap_except_up h 0 \<Longrightarrow> is_heap h"
  unfolding is_heap_iff by (auto simp: heap_except_up_def)

lemma bubbleUp_correct:
  "i < length h \<Longrightarrow>
   \<exists>h'. bubbleUp h i = Inr h' \<and> length h' = length h \<and> mset h' = mset h \<and>
        (heap_except_up h i \<longrightarrow> is_heap h')"
proof (induction h i rule: bubbleUp.induct)
  case (1 h index)
  show ?case
  proof (cases "index > 0")
    case False
    then show ?thesis using up_zero by (subst bubbleUp.simps) auto
  next
    case pos: True
    let ?p = "(index - 1) div 2"
    have pl: "?p < index" using pos by arith
    show ?thesis
    proof (cases "priority (h ! ?p) \<ge> priority (h ! index)")
      case True
      then show ?thesis using pos "1.prems" up_done by (subst bubbleUp.simps) auto
    next
      case False
      have "?p < length (swap_at h ?p index)" using pl "1.prems" by simp
      from "1.IH"[OF pos "1.prems" refl False this]
      obtain h' where h': "bubbleUp (swap_at h ?p index) ?p = Inr h'"
        "length h' = length h" "mset h' = mset (swap_at h ?p index)"
        "heap_except_up (swap_at h ?p index) ?p \<longrightarrow> is_heap h'" by auto
      have "mset (swap_at h ?p index) = mset h"
        using pl "1.prems" by (simp add: mset_swap_at)
      moreover have "bubbleUp h index = Inr h'"
        using h'(1) pos "1.prems" False by (subst bubbleUp.simps) (simp add: Let_def)
      ultimately show ?thesis using h' up_step[OF _ pos "1.prems" False] by auto
    qed
  qed
qed


lemma down_done:
  assumes "heap_except_down h i"
    and "\<not> (2 * i + 1 < length h \<and> priority (h ! (2 * i + 1)) > priority (h ! i))"
    and "\<not> (2 * i + 2 < length h \<and> priority (h ! (2 * i + 2)) > priority (h ! i))"
  shows "is_heap h"
  unfolding is_heap_iff
proof (intro allI impI)
  fix c assume c: "1 \<le> c \<and> c < length h"
  show "priority (h ! c) \<le> priority (h ! ((c - 1) div 2))"
  proof (cases "(c - 1) div 2 = i")
    case False
    then show ?thesis using assms(1) c by (auto simp: heap_except_down_def)
  next
    case True
    then have "c = 2 * i + 1 \<or> c = 2 * i + 2" using c by arith
    then show ?thesis using assms(2,3) c True by auto
  qed
qed

lemma down_step:
  assumes H: "heap_except_down h i"
    and l: "l = 2 * i + 1 \<or> l = 2 * i + 2" "l < length h"
    and gt: "priority (h ! l) > priority (h ! i)"
    and big: "\<And>c. c = 2 * i + 1 \<or> c = 2 * i + 2 \<Longrightarrow> c < length h \<Longrightarrow> priority (h ! c) \<le> priority (h ! l)"
  shows "heap_except_down (swap_at h i l) l"
proof -
  have il: "i < l" using l(1) by arith
  have ilen: "i < length h" using il l(2) by simp
  have pl: "(l - 1) div 2 = i" using l(1) by arith
  from H have A: "\<And>c. 1 \<le> c \<Longrightarrow> c < length h \<Longrightarrow> (c - 1) div 2 \<noteq> i \<Longrightarrow> priority (h ! c) \<le> priority (h ! ((c - 1) div 2))"
    and B: "\<And>c. 1 \<le> c \<Longrightarrow> c < length h \<Longrightarrow> (c - 1) div 2 = i \<Longrightarrow> 0 < i \<Longrightarrow> priority (h ! c) \<le> priority (h ! ((i - 1) div 2))"
    by (auto simp: heap_except_down_def)
  show ?thesis unfolding heap_except_down_def
  proof (intro conjI allI impI)
    fix c assume c: "1 \<le> c \<and> c < length (swap_at h i l) \<and> (c - 1) div 2 \<noteq> l"
    then have c1: "1 \<le> c" and c2: "c < length h" and c3: "(c - 1) div 2 \<noteq> l" by auto
    have pc: "(c - 1) div 2 < length h" using c2 by arith
    have pcc: "(c - 1) div 2 < c" using c1 by arith
    show "priority (swap_at h i l ! c) \<le> priority (swap_at h i l ! ((c - 1) div 2))"
    proof (cases "c = l")
      case True
      then show ?thesis using gt pl il ilen l(2) by (simp add: nth_swap_at)
    next
      case cl: False
      show ?thesis
      proof (cases "(c - 1) div 2 = i")
        case True
        then have "c = 2 * i + 1 \<or> c = 2 * i + 2" using c1 by arith
        from big[OF this c2] show ?thesis using True cl il ilen l(2) c2 pcc
          by (simp add: nth_swap_at)
      next
        case ni: False
        show ?thesis
        proof (cases "c = i")
          case True
          then have i0: "0 < i" using c1 by simp
          have "priority (h ! l) \<le> priority (h ! ((i - 1) div 2))"
            using B[of l] l pl i0 il by simp
          moreover have "(i - 1) div 2 < i" using i0 by arith
          ultimately show ?thesis using True il ilen l(2) pc
            by (simp add: nth_swap_at)
        next
          case False
          then show ?thesis using A[OF c1 c2 ni] ni cl c3 il ilen l(2) c2 pc
            by (simp add: nth_swap_at)
        qed
      qed
    qed
  next
    fix c assume c: "1 \<le> c \<and> c < length (swap_at h i l) \<and> (c - 1) div 2 = l \<and> 0 < l"
    then have c1: "1 \<le> c" and c2: "c < length h" and c3: "(c - 1) div 2 = l" by auto
    have lc: "l < c" using c3 c1 by arith
    have "priority (h ! c) \<le> priority (h ! l)"
      using A[OF c1 c2] c3 il by simp
    then show "priority (swap_at h i l ! c) \<le> priority (swap_at h i l ! ((l - 1) div 2))"
      using pl lc il ilen l(2) c2 by (simp add: nth_swap_at)
  qed
qed

lemma bubbleDown_correct:
  "length (bubbleDown h i) = length h \<and> mset (bubbleDown h i) = mset h \<and>
   (heap_except_down h i \<longrightarrow> is_heap (bubbleDown h i))"
proof (induction h i rule: bubbleDown.induct)
  case (1 h index)
  define l1 where "l1 = (if 2 * index + 1 < length h \<and> priority (h ! (2 * index + 1)) > priority (h ! index)
                     then 2 * index + 1 else index)"
  define l2 where "l2 = (if 2 * index + 2 < length h \<and> priority (h ! (2 * index + 2)) > priority (h ! l1)
                     then 2 * index + 2 else l1)"
  have unf: "bubbleDown h index = (if l2 = index then h else bubbleDown (swap_at h index l2) l2)"
    by (subst bubbleDown.simps) (simp add: Let_def l1_def l2_def)
  show ?case
  proof (cases "l2 = index")
    case True
    then have a: "\<not> (2 * index + 1 < length h \<and> priority (h ! (2 * index + 1)) > priority (h ! index))"
      and b: "\<not> (2 * index + 2 < length h \<and> priority (h ! (2 * index + 2)) > priority (h ! index))"
      by (auto simp: l1_def l2_def split: if_splits)
    show ?thesis using unf True down_done[OF _ a b] by simp
  next
    case False
    have l2: "l2 = 2 * index + 1 \<or> l2 = 2 * index + 2" "l2 < length h"
      using False by (auto simp: l1_def l2_def split: if_splits)
    have gt: "priority (h ! l2) > priority (h ! index)"
      using False by (auto simp: l1_def l2_def split: if_splits)
    have big: "\<And>c. c = 2 * index + 1 \<or> c = 2 * index + 2 \<Longrightarrow> c < length h \<Longrightarrow> priority (h ! c) \<le> priority (h ! l2)"
      using False by (auto simp: l1_def l2_def split: if_splits)
    have IH: "length (bubbleDown (swap_at h index l2) l2) = length (swap_at h index l2) \<and>
          mset (bubbleDown (swap_at h index l2) l2) = mset (swap_at h index l2) \<and>
          (heap_except_down (swap_at h index l2) l2 \<longrightarrow> is_heap (bubbleDown (swap_at h index l2) l2))"
      using "1.IH"[OF refl refl refl l1_def l2_def False] by simp
    have "mset (swap_at h index l2) = mset h"
    proof -
      have "index < length h" using l2 by arith
      then show ?thesis using l2(2) by (rule mset_swap_at)
    qed
    then show ?thesis using unf False IH down_step[OF _ l2 gt big] by auto
  qed
qed

lemma heap_root_max:
  assumes "is_heap h"
  shows "i < length h \<Longrightarrow> priority (h ! i) \<le> priority (h ! 0)"
proof (induction i rule: less_induct)
  case (less i)
  show ?case
  proof (cases "i = 0")
    case True
    then show ?thesis by simp
  next
    case False
    then have p: "(i - 1) div 2 < i" by arith
    have "priority (h ! i) \<le> priority (h ! ((i - 1) div 2))"
      using assms False less.prems by (simp add: is_heap_iff)
    moreover have "priority (h ! ((i - 1) div 2)) \<le> priority (h ! 0)"
      using less.IH[OF p] p less.prems by simp
    ultimately show ?thesis by simp
  qed
qed

lemma insert_pq_correct:
  "\<exists>h'. insert_pq h t = Inr h' \<and> length h' = Suc (length h) \<and> mset h' = add_mset t (mset h) \<and>
        (is_heap h \<longrightarrow> is_heap h')"
proof -
  have ex: "heap_except_up (h @ [t]) (length h)" if "is_heap h"
    unfolding heap_except_up_def
  proof (intro conjI allI impI)
    fix c assume "1 \<le> c \<and> c < length (h @ [t]) \<and> c \<noteq> length h"
    then have c: "1 \<le> c" "c < length h" by auto
    then have "(c - 1) div 2 < length h" by arith
    then show "priority ((h @ [t]) ! c) \<le> priority ((h @ [t]) ! ((c - 1) div 2))"
      using that c by (simp add: nth_append is_heap_iff)
  next
    fix c assume "1 \<le> c \<and> c < length (h @ [t]) \<and> (c - 1) div 2 = length h \<and> 0 < length h"
    then have "1 \<le> c" "c < Suc (length h)" "(c - 1) div 2 = length h" by auto
    then have False by arith
    then show "priority ((h @ [t]) ! c) \<le> priority ((h @ [t]) ! ((length h - 1) div 2))" ..
  qed
  have "length h < length (h @ [t])" by simp
  from bubbleUp_correct[OF this] ex show ?thesis
    by (auto simp: insert_pq_def Let_def)
qed

lemma extractMax_empty: "extractMax [] = (None, [])"
  by (simp add: extractMax_def)

lemma extractMax_correct:
  assumes "h \<noteq> []"
  shows "\<exists>h'. extractMax h = (Some (h ! 0), h') \<and> Suc (length h') = length h \<and>
           mset h' = mset h - {#h ! 0#} \<and> (is_heap h \<longrightarrow> is_heap h')"
proof -
  define h2 where "h2 = butlast (h[0 := h ! (length h - 1)])"
  have len: "Suc (length h2) = length h" using assms by (simp add: h2_def)
  have ms: "mset h2 = mset h - {#h ! 0#}"
  proof (cases h)
    case Nil
    then show ?thesis using assms by simp
  next
    case (Cons x t)
    show ?thesis
    proof (cases "t = []")
      case True
      then show ?thesis using Cons by (simp add: h2_def)
    next
      case False
      then have "t = butlast t @ [last t]" by simp
      then have "mset t = add_mset (last t) (mset (butlast t))"
        by (metis mset.simps(2) mset_rev rev.simps(2) rev_rev_ident union_mset_add_mset_right add.right_neutral mset_append mset.simps(1))
      moreover have "h ! (length h - 1) = last t" using Cons False by (simp add: last_conv_nth)
      ultimately show ?thesis using Cons False by (simp add: h2_def)
    qed
  qed
  have nth: "\<And>c. 1 \<le> c \<Longrightarrow> c < length h2 \<Longrightarrow> h2 ! c = h ! c"
    using len by (simp add: h2_def nth_butlast)
  have ex: "heap_except_down h2 0" if "is_heap h"
    unfolding heap_except_down_def
  proof (intro conjI allI impI)
    fix c assume c: "1 \<le> c \<and> c < length h2 \<and> (c - 1) div 2 \<noteq> 0"
    then have p: "1 \<le> (c - 1) div 2" "(c - 1) div 2 < length h2" by arith+
    have "c < length h" using c len by simp
    then show "priority (h2 ! c) \<le> priority (h2 ! ((c - 1) div 2))"
      using that c nth[of c] nth[OF p] by (simp add: is_heap_iff)
  next
    fix c assume "1 \<le> c \<and> c < length h2 \<and> (c - 1) div 2 = 0 \<and> (0::nat) < 0"
    then show "priority (h2 ! c) \<le> priority (h2 ! ((0 - 1) div 2))" by simp
  qed
  have e0: "is_heap []" by (simp add: is_heap_def)
  have unf: "extractMax h = (Some (h ! 0), if length h2 > 0 then bubbleDown h2 0 else h2)"
    unfolding extractMax_def Let_def h2_def using assms by simp
  show ?thesis
  proof (cases "length h2 > 0")
    case True
    then have "extractMax h = (Some (h ! 0), bubbleDown h2 0)"
      using unf by simp
    then show ?thesis using bubbleDown_correct[of h2 0] len ms ex by auto
  next
    case False
    then have "extractMax h = (Some (h ! 0), h2)" "h2 = []"
      using unf by simp_all
    then show ?thesis using len ms e0 by auto
  qed
qed

lemma pq_run_correct:
  "is_heap h \<Longrightarrow> \<exists>h'. pq_run h ops = Inr h' \<and> is_heap h'"
proof (induction ops arbitrary: h)
  case Nil
  then show ?case by simp
next
  case (Cons op ops)
  show ?case
  proof (cases op)
    case (Insert t)
    from insert_pq_correct[of h t] Cons.prems obtain h1 where
      "insert_pq h t = Inr h1" "is_heap h1" by auto
    then show ?thesis using Cons.IH[of h1] Insert by simp
  next
    case ExtractMax
    have "is_heap (snd (extractMax h))"
    proof (cases "h = []")
      case True
      then show ?thesis using Cons.prems by (simp add: extractMax_empty)
    next
      case False
      from extractMax_correct[OF this] Cons.prems show ?thesis by auto
    qed
    then show ?thesis using Cons.IH ExtractMax by simp
  qed
qed


lemma is_heap_Nil: "is_heap []"
  by (simp add: is_heap_def)

text \<open>
  Claim C2. Starting from the empty queue, every sequence of \<open>insert\<close> and \<open>extractMax\<close>
  calls runs without raising and leaves a heap array in which each entry's priority is at
  most the priority of the entry at its parent index.
\<close>

theorem heap_property_preserved:
  "\<exists>h. pq_run [] ops = Inr h \<and>
       (\<forall>c. 1 \<le> c \<and> c < length h \<longrightarrow> priority (h ! c) \<le> priority (h ! ((c - 1) div 2))) \<and>
       (\<forall>p c. p < length h \<and> c < length h \<and> (c = 2 * p + 1 \<or> c = 2 * p + 2) \<longrightarrow>
              priority (h ! p) \<ge> priority (h ! c))"
proof -
  from pq_run_correct[OF is_heap_Nil, of ops] obtain h where
    h: "pq_run [] ops = Inr h" "is_heap h" by auto
  have a: "\<forall>c. 1 \<le> c \<and> c < length h \<longrightarrow> priority (h ! c) \<le> priority (h ! ((c - 1) div 2))"
    using h(2) by (simp add: is_heap_iff)
  have "priority (h ! p) \<ge> priority (h ! c)"
    if "p < length h \<and> c < length h \<and> (c = 2 * p + 1 \<or> c = 2 * p + 2)" for p c
  proof -
    from that have "1 \<le> c" "c < length h" "(c - 1) div 2 = p" by auto
    then show ?thesis using a by auto
  qed
  then show ?thesis using h(1) a by blast
qed

theorem heap_property_preserved_witness:
  "pq_run [] [Insert (ticket_of 1 5), Insert (ticket_of 2 1), Insert (ticket_of 3 9),
               ExtractMax, Insert (ticket_of 4 3)] =
     Inr [ticket_of 1 5, ticket_of 2 1, ticket_of 4 3] \<and>
   is_heap [ticket_of 1 5, ticket_of 2 1, ticket_of 4 3]"
  using heap_property_preserved [of "[Insert (ticket_of 1 5), Insert (ticket_of 2 1),
      Insert (ticket_of 3 9), ExtractMax, Insert (ticket_of 4 3)]"]
  by (simp add: insert_pq_def extractMax_def bubbleUp.simps bubbleDown.simps swap_at_def
      Let_def ticket_of_def is_heap_iff)

text \<open>
  Claim C3. On a queue reached by \<open>insert\<close> and \<open>extractMax\<close> calls, \<open>extractMax\<close>
  returns \<^verbatim>\<open>null\<close> exactly when the queue is empty; otherwise it returns an entry of the
  queue whose priority is at least that of every entry, and the queue afterwards holds
  the same entries less that one. Inserting priorities 5, 1, 9, 3 and extracting five
  times yields 9, 5, 3, 1 and then \<^verbatim>\<open>null\<close>.
\<close>

theorem extractMax_returns_maximum:
  assumes "pq_run [] ops = Inr h"
  shows "(fst (extractMax h) = None \<longleftrightarrow> h = []) \<and>
         (h \<noteq> [] \<longrightarrow>
            (\<exists>m h'. extractMax h = (Some m, h') \<and> m \<in> set h \<and>
                    (\<forall>t \<in> set h. priority t \<le> priority m) \<and>
                    mset h' = mset h - {#m#})) \<and>
         (\<exists>q. pq_run [] (map (\<lambda>p. Insert (ticket_of 0 p)) [5, 1, 9, 3]) = Inr q \<and>
              map (map_option priority) (extract_n 5 q) = [Some 9, Some 5, Some 3, Some 1, None])"
proof -
  have hp: "is_heap h"
    using pq_run_correct[OF is_heap_Nil, of ops] assms by simp
  have one: "fst (extractMax h) = None \<longleftrightarrow> h = []"
  proof (cases "h = []")
    case True
    then show ?thesis by (simp add: extractMax_empty)
  next
    case False
    from extractMax_correct[OF this] show ?thesis using False by auto
  qed
  have two: "\<exists>m h'. extractMax h = (Some m, h') \<and> m \<in> set h \<and>
                    (\<forall>t \<in> set h. priority t \<le> priority m) \<and>
                    mset h' = mset h - {#m#}" if ne: "h \<noteq> []"
  proof -
    from extractMax_correct[OF ne] obtain h' where
      e: "extractMax h = (Some (h ! 0), h')" "mset h' = mset h - {#h ! 0#}" by auto
    have "h ! 0 \<in> set h" using ne by simp
    moreover have "\<forall>t \<in> set h. priority t \<le> priority (h ! 0)"
      using heap_root_max[OF hp] by (auto simp: in_set_conv_nth)
    ultimately show ?thesis using e by blast
  qed
  have three: "\<exists>q. pq_run [] (map (\<lambda>p. Insert (ticket_of 0 p)) [5, 1, 9, 3]) = Inr q \<and>
              map (map_option priority) (extract_n 5 q) = [Some 9, Some 5, Some 3, Some 1, None]"
    by (simp add: insert_pq_def extractMax_def bubbleUp.simps bubbleDown.simps swap_at_def
      Let_def ticket_of_def numeral_eq_Suc)
  show ?thesis using one two three by blast
qed

theorem extractMax_returns_maximum_witness:
  "pq_run [] [Insert (ticket_of 1 2), Insert (ticket_of 2 7)] = Inr [ticket_of 2 7, ticket_of 1 2] \<and>
   extractMax [ticket_of 2 7, ticket_of 1 2] = (Some (ticket_of 2 7), [ticket_of 1 2]) \<and>
   extractMax [] = (None, [])"
proof -
  have r: "pq_run [] [Insert (ticket_of 1 2), Insert (ticket_of 2 7)] = Inr [ticket_of 2 7, ticket_of 1 2]"
    by (simp add: insert_pq_def bubbleUp.simps swap_at_def Let_def ticket_of_def)
  have e: "pq_run [] [] = Inr []" by simp
  show ?thesis
    using extractMax_returns_maximum [OF r] extractMax_returns_maximum [OF e] r
    by (simp add: extractMax_def bubbleDown.simps swap_at_def Let_def ticket_of_def)
qed


section \<open>Availability sweep\<close>

lemma sweep_props:
  assumes "sorted (map slot_start ss)" and "sweep ss cur avail = (avail', cur')"
  shows "cur \<le> cur' \<and> (\<forall>s \<in> set ss. slot_end s \<le> cur') \<and>
         (\<exists>new. avail' = avail @ new \<and>
            (\<forall>g \<in> set new. cur \<le> slot_start g \<and> slot_start g < slot_end g \<and>
               (\<exists>s \<in> set ss. slot_end g = slot_start s) \<and>
               (\<forall>s \<in> set ss. disjoint_slots g s)))"
  using assms
proof (induction ss arbitrary: cur avail)
  case Nil
  then show ?case by simp
next
  case (Cons s ss)
  let ?cur1 = "max cur (slot_end s)"
  let ?g0 = "\<lparr>slot_start = cur, slot_end = slot_start s\<rparr>"
  let ?avail1 = "if cur < slot_start s then avail @ [?g0] else avail"
  have srt: "sorted (map slot_start ss)" and later: "\<forall>s' \<in> set ss. slot_start s \<le> slot_start s'"
    using Cons.prems(1) by auto
  have run: "sweep ss ?cur1 ?avail1 = (avail', cur')" using Cons.prems(2) by simp
  from Cons.IH[OF srt run] obtain new where
    a: "?cur1 \<le> cur'" and b: "\<forall>s \<in> set ss. slot_end s \<le> cur'" and
    c: "avail' = ?avail1 @ new" and
    d: "\<forall>g \<in> set new. ?cur1 \<le> slot_start g \<and> slot_start g < slot_end g \<and>
               (\<exists>s \<in> set ss. slot_end g = slot_start s) \<and>
               (\<forall>s \<in> set ss. disjoint_slots g s)"
    by blast
  define new' where "new' = (if cur < slot_start s then ?g0 # new else new)"
  have e: "avail' = avail @ new'" using c by (simp add: new'_def)
  have g0: "cur < slot_start s \<Longrightarrow> (\<forall>s' \<in> set (s # ss). disjoint_slots ?g0 s')"
    using later by (auto simp: disjoint_slots_def)
  have f: "\<forall>g \<in> set new'. cur \<le> slot_start g \<and> slot_start g < slot_end g \<and>
               (\<exists>s' \<in> set (s # ss). slot_end g = slot_start s') \<and>
               (\<forall>s' \<in> set (s # ss). disjoint_slots g s')"
  proof
    fix g assume g: "g \<in> set new'"
    show "cur \<le> slot_start g \<and> slot_start g < slot_end g \<and>
               (\<exists>s' \<in> set (s # ss). slot_end g = slot_start s') \<and>
               (\<forall>s' \<in> set (s # ss). disjoint_slots g s')"
    proof (cases "g \<in> set new")
      case True
      with d have dg: "?cur1 \<le> slot_start g" "slot_start g < slot_end g"
        "\<exists>s \<in> set ss. slot_end g = slot_start s" "\<forall>s \<in> set ss. disjoint_slots g s" by auto
      have "disjoint_slots g s" using dg(1) by (auto simp: disjoint_slots_def)
      then show ?thesis using dg by auto
    next
      case False
      then have "g = ?g0" "cur < slot_start s" using g by (auto simp: new'_def split: if_splits)
      then show ?thesis using g0 by auto
    qed
  qed
  have "cur \<le> cur'" using a by simp
  moreover have "\<forall>s' \<in> set (s # ss). slot_end s' \<le> cur'" using a b by simp
  ultimately show ?case using e f by blast
qed

lemma slot_copy: "map (\<lambda>s. \<lparr>slot_start = slot_start s, slot_end = slot_end s\<rparr>) bs = bs"
  by (induction bs) simp_all

lemma findAvailableSlots_props:
  "(\<forall>g \<in> set (findAvailableSlots booked s e d).
      s \<le> slot_start g \<and> slot_start g < slot_end g \<and>
      (slot_end g = e \<or> (\<exists>b \<in> set booked. slot_end g = slot_start b)) \<and>
      (\<forall>b \<in> set booked. disjoint_slots g b))"
proof -
  let ?ss = "sort_key slot_start booked"
  obtain av cur where sw: "sweep ?ss s [] = (av, cur)" by (cases "sweep ?ss s []")
  have "sorted (map slot_start ?ss)" by simp
  from sweep_props[OF this sw] have
    a: "s \<le> cur" and b: "\<forall>x \<in> set booked. slot_end x \<le> cur" and
    c: "\<forall>g \<in> set av. s \<le> slot_start g \<and> slot_start g < slot_end g \<and>
               (\<exists>x \<in> set booked. slot_end g = slot_start x) \<and>
               (\<forall>x \<in> set booked. disjoint_slots g x)"
    by auto
  have res: "findAvailableSlots booked s e d =
      (if cur < e then av @ [\<lparr>slot_start = cur, slot_end = e\<rparr>] else av)"
    using sw by (simp add: findAvailableSlots_def slot_copy)
  have last: "cur < e \<Longrightarrow> \<forall>x \<in> set booked. disjoint_slots \<lparr>slot_start = cur, slot_end = e\<rparr> x"
    using b by (auto simp: disjoint_slots_def)
  show ?thesis unfolding res using a c last by auto
qed

text \<open>
  Claim C4, as the code has it. Every gap returned starts at or after the window start, is
  not empty, and shares no instant with any booked interval. When every booked interval
  starts at or before the window end, every gap also ends at or before the window end.
  For a zero-length or inverted window, no gap is returned when every booked interval
  starts at or before the window start.
\<close>

theorem findAvailableSlots_gaps:
  "(\<forall>g \<in> set (findAvailableSlots booked s e d).
      s \<le> slot_start g \<and> slot_start g < slot_end g \<and>
      (\<forall>b \<in> set booked. disjoint_slots g b)) \<and>
   ((\<forall>b \<in> set booked. slot_start b \<le> e) \<longrightarrow>
      (\<forall>g \<in> set (findAvailableSlots booked s e d). slot_end g \<le> e)) \<and>
   (e \<le> s \<and> (\<forall>b \<in> set booked. slot_start b \<le> s) \<longrightarrow>
      findAvailableSlots booked s e d = [])"
proof -
  note p = findAvailableSlots_props[of booked s e d]
  have one: "\<forall>g \<in> set (findAvailableSlots booked s e d).
      s \<le> slot_start g \<and> slot_start g < slot_end g \<and>
      (\<forall>b \<in> set booked. disjoint_slots g b)"
    using p by blast
  have two: "\<forall>g \<in> set (findAvailableSlots booked s e d). slot_end g \<le> e"
    if "\<forall>b \<in> set booked. slot_start b \<le> e"
    using p that by fastforce
  have three: "findAvailableSlots booked s e d = []"
    if inv: "e \<le> s" and h: "\<forall>b \<in> set booked. slot_start b \<le> s"
  proof (rule ccontr)
    assume "findAvailableSlots booked s e d \<noteq> []"
    then obtain g where g: "g \<in> set (findAvailableSlots booked s e d)"
      by (cases "findAvailableSlots booked s e d") auto
    with p have a: "s \<le> slot_start g" "slot_start g < slot_end g"
      and b: "slot_end g = e \<or> (\<exists>b \<in> set booked. slot_end g = slot_start b)" by auto
    have "slot_end g \<le> s" using b inv h by auto
    then show False using a by simp
  qed
  show ?thesis using one two three by blast
qed

theorem findAvailableSlots_gaps_witness:
  "findAvailableSlots [\<lparr>slot_start = 660, slot_end = 690\<rparr>, \<lparr>slot_start = 600, slot_end = 630\<rparr>] 540 720 30 =
     [\<lparr>slot_start = 540, slot_end = 600\<rparr>, \<lparr>slot_start = 630, slot_end = 660\<rparr>,
      \<lparr>slot_start = 690, slot_end = 720\<rparr>] \<and>
   findAvailableSlots [\<lparr>slot_start = 600, slot_end = 630\<rparr>] 720 540 30 = [] \<and>
   findAvailableSlots [\<lparr>slot_start = 700, slot_end = 800\<rparr>, \<lparr>slot_start = 400, slot_end = 450\<rparr>] 700 700 30 = []"
  using findAvailableSlots_gaps [of "[\<lparr>slot_start = 660, slot_end = 690\<rparr>, \<lparr>slot_start = 600, slot_end = 630\<rparr>]" 540 720 30]
    findAvailableSlots_gaps [of "[\<lparr>slot_start = 600, slot_end = 630\<rparr>]" 720 540 30]
    findAvailableSlots_gaps [of "[\<lparr>slot_start = 700, slot_end = 800\<rparr>, \<lparr>slot_start = 400, slot_end = 450\<rparr>]" 700 700 30]
  by (simp add: findAvailableSlots_def)

theorem findAvailableSlots_outside_window:
  "findAvailableSlots [\<lparr>slot_start = 10, slot_end = 20\<rparr>] 0 5 30 = [\<lparr>slot_start = 0, slot_end = 10\<rparr>] \<and>
   \<not> slot_end \<lparr>slot_start = 0, slot_end = 10\<rparr> \<le> (5::int) \<and>
   findAvailableSlots [\<lparr>slot_start = 20, slot_end = 30\<rparr>] 10 5 30 = [\<lparr>slot_start = 10, slot_end = 20\<rparr>] \<and>
   (5::int) \<le> 10"
  by (simp add: findAvailableSlots_def)


section \<open>Token bucket bounds\<close>

lemma refill_bounds:
  assumes "0 \<le> tokens b" "tokens b \<le> capacity b" "0 \<le> refillRate b" "lastRefill b \<le> now"
  shows "0 \<le> tokens (refill b now) \<and> tokens (refill b now) \<le> capacity b \<and>
         capacity (refill b now) = capacity b \<and> refillRate (refill b now) = refillRate b \<and>
         lastRefill (refill b now) = now"
proof -
  have "0 \<le> (of_int (now - lastRefill b) :: rat) / 1000" using assms(4) by simp
  then have "0 \<le> of_int (now - lastRefill b) / 1000 * refillRate b"
    using assms(3) by (rule mult_nonneg_nonneg)
  then show ?thesis using assms(1,2) by (simp add: refill_def Let_def)
qed

lemma consume_bounds:
  assumes "0 \<le> tokens b" "tokens b \<le> capacity b" "0 \<le> refillRate b" "lastRefill b \<le> now"
    and "0 \<le> amount" and "consume b now amount = (ok, b')"
  shows "0 \<le> tokens b' \<and> tokens b' \<le> capacity b' \<and> capacity b' = capacity b \<and>
         refillRate b' = refillRate b \<and> lastRefill b' = now \<and>
         (\<not> ok \<longrightarrow> b' = refill b now) \<and> (ok \<longrightarrow> tokens b' = tokens (refill b now) - amount)"
  using refill_bounds[OF assms(1-4)] assms(5,6)
  by (auto simp: consume_def Let_def split: if_splits)

lemma consume_trace_bounds:
  assumes "0 \<le> tokens b" "tokens b \<le> capacity b" "0 \<le> refillRate b"
    and "sorted (lastRefill b # map fst calls)" and "\<forall>c \<in> set calls. 0 \<le> snd c"
  shows "\<forall>(r, ok, a) \<in> set (consume_trace b calls).
           0 \<le> r \<and> r \<le> capacity b \<and> 0 \<le> a \<and> a \<le> capacity b \<and> (\<not> ok \<longrightarrow> a = r)"
  using assms
proof (induction calls arbitrary: b)
  case Nil
  then show ?case by simp
next
  case (Cons call calls)
  obtain now amount where call: "call = (now, amount)" by (cases call)
  obtain ok b' where c: "consume b now amount = (ok, b')" by (cases "consume b now amount")
  have le: "lastRefill b \<le> now" and am: "0 \<le> amount" using Cons.prems call by auto
  note cb = consume_bounds[OF Cons.prems(1-3) le am c]
  note rb = refill_bounds[OF Cons.prems(1-3) le]
  have p1: "0 \<le> tokens b'" and p2: "tokens b' \<le> capacity b'" and p3: "0 \<le> refillRate b'"
    and cap: "capacity b' = capacity b"
    using cb Cons.prems(3) by simp_all
  have p4: "sorted (lastRefill b' # map fst calls)" using Cons.prems(4) cb call by simp
  have p5: "\<forall>c \<in> set calls. 0 \<le> snd c" using Cons.prems(5) by simp
  have IH: "\<forall>(r, ok, a) \<in> set (consume_trace b' calls).
           0 \<le> r \<and> r \<le> capacity b \<and> 0 \<le> a \<and> a \<le> capacity b \<and> (\<not> ok \<longrightarrow> a = r)"
    using Cons.IH[OF p1 p2 p3 p4 p5] cap by simp
  have hd: "0 \<le> tokens (refill b now) \<and> tokens (refill b now) \<le> capacity b \<and>
            0 \<le> tokens b' \<and> tokens b' \<le> capacity b \<and> (\<not> ok \<longrightarrow> tokens b' = tokens (refill b now))"
    using cb rb by auto
  have unf: "consume_trace b (call # calls) = (tokens (refill b now), ok, tokens b') # consume_trace b' calls"
    using c call by simp
  show ?case unfolding unf using IH hd by simp
qed

lemma consume_upper:
  assumes "0 \<le> amount" and "consume b now amount = (ok, b')"
  shows "tokens (refill b now) \<le> capacity b \<and> tokens b' \<le> capacity b \<and>
         capacity b' = capacity b \<and> (\<not> ok \<longrightarrow> tokens b' = tokens (refill b now))"
  using assms by (auto simp: consume_def refill_def Let_def split: if_splits)

lemma consume_trace_upper:
  assumes "\<forall>c \<in> set calls. 0 \<le> snd c"
  shows "\<forall>(r, ok, a) \<in> set (consume_trace b calls).
           r \<le> capacity b \<and> a \<le> capacity b \<and> (\<not> ok \<longrightarrow> a = r)"
  using assms
proof (induction calls arbitrary: b)
  case Nil
  then show ?case by simp
next
  case (Cons call calls)
  obtain now amount where call: "call = (now, amount)" by (cases call)
  obtain ok b' where c: "consume b now amount = (ok, b')" by (cases "consume b now amount")
  have am: "0 \<le> amount" using Cons.prems call by auto
  note cu = consume_upper[OF am c]
  have p: "\<forall>c \<in> set calls. 0 \<le> snd c" using Cons.prems by simp
  have IH: "\<forall>(r, ok, a) \<in> set (consume_trace b' calls).
           r \<le> capacity b \<and> a \<le> capacity b \<and> (\<not> ok \<longrightarrow> a = r)"
    using Cons.IH[OF p, of b'] cu by simp
  have unf: "consume_trace b (call # calls) = (tokens (refill b now), ok, tokens b') # consume_trace b' calls"
    using c call by simp
  show ?case unfolding unf using IH cu by simp
qed

text \<open>
  Claim C5, as the code has it. For every bucket and every run of \<open>consume\<close> calls with
  amounts that are not negative, the token count after each refill and after each call is
  at most the capacity, and a call that returns \<^verbatim>\<open>false\<close> leaves the refilled count as it
  is. The count is also at least 0 when the capacity and the refill rate are not negative
  and the clock readings never run backwards.
\<close>

theorem token_bucket_bounds:
  "((\<forall>c \<in> set calls. 0 \<le> snd c) \<longrightarrow>
      (\<forall>(r, ok, a) \<in> set (consume_trace (new_bucket cap rate t0) calls).
         r \<le> cap \<and> a \<le> cap \<and> (\<not> ok \<longrightarrow> a = r))) \<and>
   ((\<forall>c \<in> set calls. 0 \<le> snd c) \<and> 0 \<le> cap \<and> 0 \<le> rate \<and> sorted (t0 # map fst calls) \<longrightarrow>
      (\<forall>(r, ok, a) \<in> set (consume_trace (new_bucket cap rate t0) calls). 0 \<le> r \<and> 0 \<le> a))"
proof (intro conjI impI)
  assume "\<forall>c \<in> set calls. 0 \<le> snd c"
  from consume_trace_upper[OF this, of "new_bucket cap rate t0"]
  show "\<forall>(r, ok, a) \<in> set (consume_trace (new_bucket cap rate t0) calls).
         r \<le> cap \<and> a \<le> cap \<and> (\<not> ok \<longrightarrow> a = r)"
    by (simp add: new_bucket_def)
next
  assume h: "(\<forall>c \<in> set calls. 0 \<le> snd c) \<and> 0 \<le> cap \<and> 0 \<le> rate \<and> sorted (t0 # map fst calls)"
  have "\<forall>(r, ok, a) \<in> set (consume_trace (new_bucket cap rate t0) calls).
           0 \<le> r \<and> r \<le> capacity (new_bucket cap rate t0) \<and> 0 \<le> a \<and>
           a \<le> capacity (new_bucket cap rate t0) \<and> (\<not> ok \<longrightarrow> a = r)"
    by (rule consume_trace_bounds) (use h in \<open>simp_all add: new_bucket_def\<close>)
  then show "\<forall>(r, ok, a) \<in> set (consume_trace (new_bucket cap rate t0) calls). 0 \<le> r \<and> 0 \<le> a"
    by fastforce
qed

theorem token_bucket_bounds_witness:
  "consume_trace (new_bucket 10 1 0) [(0, 10), (500, 1), (3000, 2), (60000, 0)] =
     [(10, True, 0), (1 / 2, False, 1 / 2), (3, True, 1), (10, True, 10)]"
  using token_bucket_bounds [of "[(0, 10), (500, 1), (3000, 2), (60000, 0)]" 10 1 0]
  by (simp add: new_bucket_def consume_def refill_def Let_def)

theorem token_bucket_negative_tokens:
  "consume_trace (new_bucket 10 1 5000) [(5000, 10), (0, 0)] = [(10, True, 0), (- 5, False, - 5)] \<and>
   consume_trace (new_bucket 10 (- 1) 0) [(20000, 0)] = [(- 10, False, - 10)] \<and>
   consume_trace (new_bucket (- 1) 1 0) [(0, 0)] = [(- 1, False, - 1)]"
  by (simp add: new_bucket_def consume_def refill_def Let_def)


section \<open>Specialty similarity\<close>

lemma set_js_insort: "set (js_insort cmp x ys) = insert x (set ys)"
  by (induction ys) auto

lemma set_js_sort: "set (js_sort cmp xs) = set xs"
  by (induction xs) (simp_all add: js_sort_def set_js_insort)

lemma set_js_slice0: "set (js_slice0 k xs) \<subseteq> set xs"
  by (simp add: js_slice0_def set_take_subset)

lemma similarity_of_cases:
  "(similarity_of sy sp = NaN \<longleftrightarrow> sy = [] \<and> sp = []) \<and>
   (similarity_of sy sp \<noteq> NaN \<longrightarrow> (\<exists>q. similarity_of sy sp = Num q \<and> 0 \<le> q \<and> q \<le> 1))"
proof -
  let ?c = "filter (\<lambda>s. s \<in> set sp) sy"
  let ?m = "max (length sy) (length sp)"
  have le: "length ?c \<le> ?m" using length_filter_le[of "\<lambda>s. s \<in> set sp" sy] by linarith
  have sim: "similarity_of sy sp = js_div (of_nat (length ?c)) (of_nat ?m)"
    by (simp add: similarity_of_def Let_def)
  show ?thesis
  proof (cases "?m = 0")
    case True
    then have "sy = []" "sp = []" by auto
    then show ?thesis by (simp add: similarity_of_def js_div_def)
  next
    case False
    then have "0 < ?m" by arith
    then have pos: "0 < (of_nat ?m :: rat)" by (simp only: of_nat_0_less_iff)
    have "(of_nat (length ?c) :: rat) \<le> of_nat ?m" using le by (simp only: of_nat_le_iff)
    then have "(of_nat (length ?c) :: rat) / of_nat ?m \<le> 1" using pos by (simp add: divide_le_eq)
    moreover have "0 \<le> (of_nat (length ?c) :: rat) / of_nat ?m" by simp
    moreover have "similarity_of sy sp = Num (of_nat (length ?c) / of_nat ?m)"
      using False sim by (simp add: js_div_def)
    moreover have "\<not> (sy = [] \<and> sp = [])" using False by auto
    ultimately show ?thesis by auto
  qed
qed

lemma similarity_of_no_tokens:
  "sp = [] \<Longrightarrow> \<not> js_gt (similarity_of sy sp) (Num 0)"
  by (simp add: similarity_of_def js_div_def js_gt_def)

lemma knn_distances_entry:
  "e \<in> set (knn_distances symptoms doctors) \<Longrightarrow>
   fst e \<in> set doctors \<and> snd e = similarity_of (tokens_of symptoms) (specialty_tokens (fst e))"
  by (auto simp: knn_distances_def Let_def)

lemma knnRecommendation_entry:
  "e \<in> set (knnRecommendation symptoms doctors k) \<Longrightarrow>
   e \<in> set (knn_distances symptoms doctors) \<and> js_gt (snd e) (Num 0)"
  using set_js_slice0[of k "js_sort (\<lambda>a b. js_sub (snd b) (snd a)) (knn_distances symptoms doctors)"]
  by (auto simp: knnRecommendation_def Let_def set_js_sort)

text \<open>
  Claim C6, as the code has it. The division is not guarded: a similarity is
  \<^verbatim>\<open>NaN\<close> exactly when the symptom text and the doctor's specialty text both have no
  token, and otherwise it is a number between 0 and 1. The final filter keeps only
  similarities greater than 0, which \<^verbatim>\<open>NaN\<close> is not: every entry returned is a doctor of
  the roster whose specialty text has at least one token, with a similarity in (0, 1].
\<close>

theorem knn_similarity_values:
  "(\<forall>e \<in> set (knn_distances symptoms doctors).
      (snd e = NaN \<longleftrightarrow> tokens_of symptoms = [] \<and> specialty_tokens (fst e) = []) \<and>
      (snd e \<noteq> NaN \<longrightarrow> (\<exists>q. snd e = Num q \<and> 0 \<le> q \<and> q \<le> 1))) \<and>
   (\<forall>e \<in> set (knnRecommendation symptoms doctors k).
      fst e \<in> set doctors \<and> specialty_tokens (fst e) \<noteq> [] \<and>
      (\<exists>q. snd e = Num q \<and> 0 < q \<and> q \<le> 1))"
proof (intro conjI ballI)
  fix e assume "e \<in> set (knn_distances symptoms doctors)"
  then have s: "snd e = similarity_of (tokens_of symptoms) (specialty_tokens (fst e))"
    using knn_distances_entry by blast
  show "snd e = NaN \<longleftrightarrow> tokens_of symptoms = [] \<and> specialty_tokens (fst e) = []"
    unfolding s using similarity_of_cases by blast
  show "snd e \<noteq> NaN \<longrightarrow> (\<exists>q. snd e = Num q \<and> 0 \<le> q \<and> q \<le> 1)"
    unfolding s using similarity_of_cases by blast
next
  fix e assume e: "e \<in> set (knnRecommendation symptoms doctors k)"
  then have d: "e \<in> set (knn_distances symptoms doctors)" and gt: "js_gt (snd e) (Num 0)"
    using knnRecommendation_entry by blast+
  then have s: "snd e = similarity_of (tokens_of symptoms) (specialty_tokens (fst e))"
    and m: "fst e \<in> set doctors"
    using knn_distances_entry by blast+
  show "fst e \<in> set doctors" by (rule m)
  show "specialty_tokens (fst e) \<noteq> []"
    using gt similarity_of_no_tokens[of "specialty_tokens (fst e)" "tokens_of symptoms"]
    unfolding s by blast
  have "snd e \<noteq> NaN" using gt by (auto simp: js_gt_def)
  then obtain q where q: "snd e = Num q" "0 \<le> q" "q \<le> 1"
    using similarity_of_cases[of "tokens_of symptoms" "specialty_tokens (fst e)"] s by auto
  then have "0 < q" using gt by (simp add: js_gt_def)
  then show "\<exists>q. snd e = Num q \<and> 0 < q \<and> q \<le> 1" using q by blast
qed

lemma tokens_example_1: "tokens_of ''Fever, cough'' = [''fever'', ''cough'']"
  by code_simp

lemma tokens_example_2: "tokens_of ''cardiology,FEVER'' = [''cardiology'', ''fever'']"
  by code_simp

lemma tokens_example_3: "tokens_of '' , '' = []" "tokens_of [] = []"
  by code_simp+

theorem knn_similarity_values_witness:
  "knnRecommendation ''Fever, cough''
     [\<lparr>doctor_id = 1, specialties = Some ''cardiology,FEVER''\<rparr>,
      \<lparr>doctor_id = 2, specialties = None\<rparr>,
      \<lparr>doctor_id = 3, specialties = Some ''Fever, cough''\<rparr>] 3 =
     [(\<lparr>doctor_id = 3, specialties = Some ''Fever, cough''\<rparr>, Num 1),
      (\<lparr>doctor_id = 1, specialties = Some ''cardiology,FEVER''\<rparr>, Num (1 / 2))] \<and>
   knn_distances '' , '' [\<lparr>doctor_id = 2, specialties = None\<rparr>] =
     [(\<lparr>doctor_id = 2, specialties = None\<rparr>, NaN)]"
  using knn_similarity_values [of "''Fever, cough''"
     "[\<lparr>doctor_id = 1, specialties = Some ''cardiology,FEVER''\<rparr>,
      \<lparr>doctor_id = 2, specialties = None\<rparr>,
      \<lparr>doctor_id = 3, specialties = Some ''Fever, cough''\<rparr>]" 3]
    knn_similarity_values [of "'' , ''" "[\<lparr>doctor_id = 2, specialties = None\<rparr>]" 3]
  by (simp add: knnRecommendation_def knn_distances_def specialty_tokens_def similarity_of_def
      tokens_example_1 tokens_example_2 tokens_example_3 js_sort_def js_slice0_def js_div_def
      js_gt_def Let_def)

theorem knn_similarity_unguarded:
  "knn_distances [] [\<lparr>doctor_id = 1, specialties = Some '' , ''\<rparr>] =
     [(\<lparr>doctor_id = 1, specialties = Some '' , ''\<rparr>, NaN)]"
  by (simp add: knn_distances_def specialty_tokens_def similarity_of_def tokens_example_3
      js_div_def Let_def)


section \<open>Rounding to a double\<close>










section \<open>Wait-time statistics\<close>



















section \<open>LRU recency\<close>

lemma map_has_delete: "\<not> map_has (map_delete m k) k"
  by (induction m) (auto simp: map_has_def map_delete_def)

lemma map_of_delete_other: "k' \<noteq> k \<Longrightarrow> map_of (map_delete m k') k = map_of m k"
  by (induction m) (auto simp: map_delete_def)

lemma lru_get_hit:
  assumes "map_of (cache c) k = Some v"
  shows "lru_get c k = (Some v, c\<lparr>cache := filter (\<lambda>e. fst e \<noteq> k) (cache c) @ [(k, v)]\<rparr>)"
  using assms map_has_delete[of "cache c" k]
  by (simp add: lru_get_def map_set_def) (simp add: map_delete_def)

lemma lru_put_keeps_recent:
  assumes "2 \<le> lru_capacity c" and "k' \<noteq> k" and "cache c = rest @ [(k, v)]"
    and "\<not> map_has rest k"
  shows "map_of (cache (lru_put c k' v')) k = Some v"
proof -
  define m1 where "m1 = (if map_has (cache c) k' then map_delete (cache c) k' else cache c)"
  have m1: "m1 = map_delete rest k' @ [(k, v)] \<or> m1 = rest @ [(k, v)]" "\<not> map_has m1 k'"
    using assms(2,3) map_has_delete[of "cache c" k']
    by (auto simp: m1_def map_delete_def)
  then obtain r where r: "m1 = r @ [(k, v)]" "map_of r k = None"
    using assms(2,4) map_of_delete_other[of k' k rest] by (auto simp: map_has_def)
  define m2 where "m2 = r @ [(k, v), (k', v')]"
  have m2: "map_set m1 k' v' = m2"
    using m1(2) r by (simp add: map_set_def m2_def)
  have look: "map_of m2 k = Some v"
    using r(2) assms(2) by (simp add: m2_def map_add_def split: option.splits)
  have c: "cache (lru_put c k' v') =
      (if int (length m2) > lru_capacity c
       then (case m2 of [] \<Rightarrow> m2 | e # _ \<Rightarrow> map_delete m2 (fst e))
       else m2)"
    unfolding lru_put_def Let_def m1_def[symmetric] m2 by simp
  show ?thesis
  proof (cases "int (length m2) > lru_capacity c")
    case False
    then show ?thesis using c look by simp
  next
    case True
    then have "length r \<noteq> 0" using assms(1) by (auto simp: m2_def)
    then obtain e r' where e: "r = e # r'" by (cases r) auto
    then have ne: "fst e \<noteq> k" using r(2) by (cases e) (auto split: if_splits)
    have "m2 = e # (r' @ [(k, v), (k', v')])" using e by (simp add: m2_def)
    then have "cache (lru_put c k' v') = map_delete m2 (fst e)"
      using c True by simp
    then show ?thesis using look map_of_delete_other[OF ne, of m2] by simp
  qed
qed

lemma lru_run_1: "lru_put \<lparr>lru_capacity = 2, cache = []\<rparr> ''a'' (1::int) =
    \<lparr>lru_capacity = 2, cache = [(''a'', 1)]\<rparr>"
  by (simp add: lru_put_def map_has_def map_set_def Let_def)

lemma lru_run_2: "lru_put \<lparr>lru_capacity = 2, cache = [(''a'', 1::int)]\<rparr> ''b'' 2 =
    \<lparr>lru_capacity = 2, cache = [(''a'', 1), (''b'', 2)]\<rparr>"
  by (simp add: lru_put_def map_has_def map_set_def Let_def)

lemma lru_run_3: "lru_get \<lparr>lru_capacity = 2, cache = [(''a'', 1::int), (''b'', 2)]\<rparr> ''a'' =
    (Some 1, \<lparr>lru_capacity = 2, cache = [(''b'', 2), (''a'', 1)]\<rparr>)"
  by (simp add: lru_get_def map_has_def map_set_def map_delete_def)

lemma lru_run_4: "lru_put \<lparr>lru_capacity = 2, cache = [(''b'', 2), (''a'', 1::int)]\<rparr> ''c'' 3 =
    \<lparr>lru_capacity = 2, cache = [(''a'', 1), (''c'', 3)]\<rparr>"
  by (simp add: lru_put_def map_has_def map_set_def map_delete_def Let_def)

lemma lru_run_5:
  "fst (lru_get \<lparr>lru_capacity = 2, cache = [(''a'', 1::int), (''c'', 3)]\<rparr> ''a'') = Some 1"
  "fst (lru_get \<lparr>lru_capacity = 2, cache = [(''a'', 1::int), (''c'', 3)]\<rparr> ''c'') = Some 3"
  "fst (lru_get \<lparr>lru_capacity = 2, cache = [(''a'', 1::int), (''c'', 3)]\<rparr> ''b'') = None"
  by (simp_all add: lru_get_def)

text \<open>
  Claim C8. With capacity 2, after \<open>put(a,1)\<close>, \<open>put(b,2)\<close>, \<open>get(a)\<close>, \<open>put(c,3)\<close> the
  cache holds \<open>a\<close> and \<open>c\<close> and misses \<open>b\<close>. In general a hit in \<open>get\<close> returns the stored
  value and moves the entry behind all others, the eviction taking the first entry; so with
  capacity at least 2, a \<open>put\<close> of another key right after the hit does not evict the key
  that was hit.
\<close>

theorem lru_recency:
  "(let c0 = \<lparr>lru_capacity = 2, cache = []\<rparr>;
        c1 = lru_put c0 ''a'' (1::int);
        c2 = lru_put c1 ''b'' 2;
        (r, c3) = lru_get c2 ''a'';
        c4 = lru_put c3 ''c'' 3
    in r = Some 1 \<and> fst (lru_get c4 ''a'') = Some 1 \<and> fst (lru_get c4 ''c'') = Some 3 \<and>
       fst (lru_get c4 ''b'') = None \<and> map fst (cache c4) = [''a'', ''c'']) \<and>
   (map_of (cache c) k = Some v \<longrightarrow>
      lru_get c k = (Some v, c\<lparr>cache := filter (\<lambda>e. fst e \<noteq> k) (cache c) @ [(k, v)]\<rparr>) \<and>
      (2 \<le> lru_capacity c \<and> k' \<noteq> k \<longrightarrow>
         fst (lru_get (lru_put (snd (lru_get c k)) k' v') k) = Some v))"
proof -
  have conc: "(let c0 = \<lparr>lru_capacity = 2, cache = []\<rparr>;
        c1 = lru_put c0 ''a'' (1::int);
        c2 = lru_put c1 ''b'' 2;
        (r, c3) = lru_get c2 ''a'';
        c4 = lru_put c3 ''c'' 3
    in r = Some 1 \<and> fst (lru_get c4 ''a'') = Some 1 \<and> fst (lru_get c4 ''c'') = Some 3 \<and>
       fst (lru_get c4 ''b'') = None \<and> map fst (cache c4) = [''a'', ''c''])"
    by (simp add: Let_def lru_run_1 lru_run_2 lru_run_3 lru_run_4 lru_run_5)
  have gen: "fst (lru_get (lru_put (snd (lru_get c k)) k' v') k) = Some v"
    if h: "map_of (cache c) k = Some v" and cap: "2 \<le> lru_capacity c" and ne: "k' \<noteq> k"
  proof -
    let ?c' = "c\<lparr>cache := filter (\<lambda>e. fst e \<noteq> k) (cache c) @ [(k, v)]\<rparr>"
    have nh: "\<not> map_has (filter (\<lambda>e. fst e \<noteq> k) (cache c)) k"
      using map_has_delete[of "cache c" k] by (simp add: map_delete_def)
    have "map_of (cache (lru_put ?c' k' v')) k = Some v"
      by (rule lru_put_keeps_recent[OF _ ne _ nh]) (use cap in simp_all)
    then show ?thesis using lru_get_hit[OF h] by (simp add: lru_get_def)
  qed
  show ?thesis
  proof (intro conjI impI)
    show "let c0 = \<lparr>lru_capacity = 2, cache = []\<rparr>;
        c1 = lru_put c0 ''a'' (1::int);
        c2 = lru_put c1 ''b'' 2;
        (r, c3) = lru_get c2 ''a'';
        c4 = lru_put c3 ''c'' 3
    in r = Some 1 \<and> fst (lru_get c4 ''a'') = Some 1 \<and> fst (lru_get c4 ''c'') = Some 3 \<and>
       fst (lru_get c4 ''b'') = None \<and> map fst (cache c4) = [''a'', ''c'']"
      by (rule conc)
  next
    assume "map_of (cache c) k = Some v"
    then show "lru_get c k = (Some v, c\<lparr>cache := filter (\<lambda>e. fst e \<noteq> k) (cache c) @ [(k, v)]\<rparr>)"
      by (rule lru_get_hit)
  next
    assume "map_of (cache c) k = Some v" and "2 \<le> lru_capacity c \<and> k' \<noteq> k"
    then show "fst (lru_get (lru_put (snd (lru_get c k)) k' v') k) = Some v"
      using gen by simp
  qed
qed

theorem lru_recency_witness:
  "lru_get \<lparr>lru_capacity = 2, cache = [(''a'', 1::int), (''b'', 2)]\<rparr> ''a'' =
     (Some 1, \<lparr>lru_capacity = 2, cache = [(''b'', 2), (''a'', 1)]\<rparr>) \<and>
   fst (lru_get (lru_put \<lparr>lru_capacity = 2, cache = [(''b'', 2), (''a'', 1::int)]\<rparr> ''c'' 3) ''a'') = Some 1"
  using lru_recency [of "\<lparr>lru_capacity = 2, cache = [(''a'', 1::int), (''b'', 2)]\<rparr>" "''a''" 1 "''c''" 3]
  by (simp add: lru_run_3 lru_run_4 lru_run_5)


section \<open>Batcher threshold\<close>

lemma add_all_fill:
  "ns \<noteq> [] \<Longrightarrow> batchSize b = int (length (batch b) + length ns) \<Longrightarrow>
   add_all b ns = (replicate (length ns - 1) None @ [Some (batch b @ ns)], b\<lparr>batch := [], timer := False\<rparr>)"
proof (induction ns arbitrary: b)
  case Nil
  then show ?case by simp
next
  case (Cons n ns)
  show ?case
  proof (cases "ns = []")
    case True
    then show ?thesis using Cons.prems by (simp add: add_def flush_def Let_def)
  next
    case False
    define b1 where "b1 = snd (add b n)"
    have a: "add b n = (None, b1)" and b1: "batch b1 = batch b @ [n]" "batchSize b1 = batchSize b"
      "b1\<lparr>batch := [], timer := False\<rparr> = b\<lparr>batch := [], timer := False\<rparr>"
      using Cons.prems False by (auto simp: b1_def add_def Let_def)
    have "batchSize b1 = int (length (batch b1) + length ns)"
      using Cons.prems b1 by simp
    from Cons.IH[OF False this] show ?thesis
      using a b1 False by (cases ns) (simp_all add: replicate_append_same)
  qed
qed

text \<open>
  Claim C9. Adding as many notifications as the batch size (at least one) to a batcher
  whose batch is empty flushes exactly once, at the last \<open>add\<close>: that flush returns the
  notifications in the order they were added, and the batch is empty (and the timer
  cleared) right after it.
\<close>

theorem batcher_threshold_flush:
  assumes "batch b = []" and "ns \<noteq> []" and "batchSize b = int (length ns)"
  shows "add_all b ns =
           (replicate (length ns - 1) None @ [Some ns], b\<lparr>batch := [], timer := False\<rparr>) \<and>
         batch (snd (add_all b ns)) = []"
  using add_all_fill[of ns b] assms by simp

theorem batcher_threshold_flush_witness:
  "add_all \<lparr>batch = [], batchSize = 3, flushInterval = 5000, timer = False\<rparr> [''n1'', ''n2'', ''n3''] =
     ([None, None, Some [''n1'', ''n2'', ''n3'']],
      \<lparr>batch = [], batchSize = 3, flushInterval = 5000, timer = False\<rparr>)"
  using batcher_threshold_flush [of "\<lparr>batch = [], batchSize = 3, flushInterval = 5000, timer = False\<rparr>"
      "[''n1'', ''n2'', ''n3'']"]
  by (simp add: numeral_eq_Suc)


section \<open>Retry helper with no attempts allowed\<close>

text \<open>
  Claim C10. When \<open>maxRetries\<close> is zero or negative the loop body never runs: the
  operation is invoked zero times, no delay is waited, and the promise resolves to
  \<^verbatim>\<open>undefined\<close> instead of rejecting.
\<close>

theorem backoff_no_attempt:
  "maxRetries \<le> 0 \<Longrightarrow> exponentialBackoff operation maxRetries = (ResolvedUndefined, 0, [])"
  by (simp add: exponentialBackoff_def backoff_from.simps)

theorem backoff_no_attempt_witness:
  "(0::int) \<le> 0 \<and> (-3::int) \<le> 0 \<and>
   exponentialBackoff (\<lambda>i. (Inl ''boom'' :: string + nat)) 0 = (ResolvedUndefined, 0, []) \<and>
   exponentialBackoff (\<lambda>i. (Inr 7 :: string + nat)) (-3) = (ResolvedUndefined, 0, [])"
  using backoff_no_attempt [of 0 "\<lambda>i. (Inl ''boom'' :: string + nat)"]
    backoff_no_attempt [of "-3" "\<lambda>i. (Inr 7 :: string + nat)"]
  by simp

end
